theory Spec2Isabelle
  imports Main "HOL-Library.Multiset" "HOL-Library.Word"
begin

section \<open>Ghost-exchange plan of \<^verbatim>\<open>cuda/test_scatterer.py\<close>\<close>

text \<open>
  The script builds, at module level, the data that a scatterer needs on one MPI rank:
  the ghost slots grouped by owning rank (lines 78-87), the owned indices grouped by the
  rank that ghosts them (lines 89-102), the index buffers that are exchanged (lines
  116-140) and the received indices turned into local ones (lines 142-145).

  Ranks are MPI ranks (\<open>int\<close>); positions and counts are \<open>nat\<close>; global indices are the
  64-bit integers of \<^verbatim>\<open>imap.ghosts\<close> and of the \<^verbatim>\<open>np.int64\<close> buffers.
\<close>

subsection \<open>Data\<close>

type_synonym int64 = "64 word"

text \<open>
  The attributes of \<^verbatim>\<open>V.dofmap.index_map\<close> that the script reads.
  \<open>index_to_dest_ranks\<close> is the adjacency list returned by the method of that name:
  node \<open>dof\<close> holds the ranks that ghost the index \<open>dof\<close>.
\<close>

record IndexMap =
  size_local :: nat
  local_range :: "int64 \<times> int64"
  ghosts :: "int64 list"
  owners :: "int list"
  index_to_dest_ranks :: "int list list"

definition num_ghosts :: "IndexMap \<Rightarrow> nat" where
  "num_ghosts imap = length (ghosts imap)"

text \<open>What the library guarantees of an index map.\<close>

definition wf_imap :: "IndexMap \<Rightarrow> bool" where
  "wf_imap imap \<longleftrightarrow>
     length (owners imap) = length (ghosts imap) \<and>
     size_local imap \<le> length (index_to_dest_ranks imap)"

datatype error = IndexError | MPI_ERR_IN_STATUS | InvalidTopology

subsection \<open>The numpy calls\<close>

text \<open>\<^verbatim>\<open>np.unique(a, return_counts=True)\<close>: the sorted distinct values, and how often each occurs.\<close>

definition np_unique :: "int list \<Rightarrow> int list" where
  "np_unique a = sort (remdups a)"

definition np_unique_counts :: "int list \<Rightarrow> nat list" where
  "np_unique_counts a = map (count_list a) (np_unique a)"

text \<open>\<^verbatim>\<open>np.cumsum\<close>, with the running total as an argument.\<close>

fun cumsum_from :: "nat \<Rightarrow> nat list \<Rightarrow> nat list" where
  "cumsum_from acc [] = []"
| "cumsum_from acc (x # xs) = (acc + x) # cumsum_from (acc + x) xs"

definition np_cumsum :: "nat list \<Rightarrow> nat list" where
  "np_cumsum a = cumsum_from 0 a"

text \<open>\<^verbatim>\<open>np.insert(np.cumsum(sizes), 0, 0)\<close>, lines 86-87 and 101-102.\<close>

definition offsets_of :: "nat list \<Rightarrow> nat list" where
  "offsets_of sizes = 0 # np_cumsum sizes"

text \<open>
  \<^verbatim>\<open>np.argsort(owners)\<close> is called with its default \<^verbatim>\<open>kind\<close>, for which the library
  promises an index array that sorts its argument and nothing about equal keys. The
  routine is a parameter \<open>argsort\<close> of the model; \<open>argsort_ok\<close> is that promise for one
  call, and \<open>stable_perm\<close> is what a stable sort would add.
\<close>

definition argsort_ok :: "nat list \<Rightarrow> int list \<Rightarrow> bool" where
  "argsort_ok p a \<longleftrightarrow> mset p = mset [0..<length a] \<and> sorted (map (\<lambda>k. a ! k) p)"

definition stable_perm :: "nat list \<Rightarrow> int list \<Rightarrow> bool" where
  "stable_perm p a \<longleftrightarrow>
     (\<forall>i < length p. \<forall>j < length p. i < j \<and> a ! (p ! i) = a ! (p ! j) \<longrightarrow> p ! i < p ! j)"

text \<open>A slice \<^verbatim>\<open>a[begin:end]\<close> with non-negative bounds.\<close>

definition py_slice :: "'a list \<Rightarrow> nat \<Rightarrow> nat \<Rightarrow> 'a list" where
  "py_slice a begin end = take (end - begin) (drop begin a)"

text \<open>Indexing with an index array, \<^verbatim>\<open>a[idx]\<close>: an index past the end raises.\<close>

fun fancy_index :: "'a list \<Rightarrow> nat list \<Rightarrow> error + 'a list" where
  "fancy_index a [] = Inr []"
| "fancy_index a (i # is) =
     (if i < length a
      then (case fancy_index a is of Inl e \<Rightarrow> Inl e | Inr ys \<Rightarrow> Inr (a ! i # ys))
      else Inl IndexError)"

subsection \<open>Ghosts of this rank, grouped by owner (lines 78-87)\<close>

definition unique_owners :: "IndexMap \<Rightarrow> int list" where
  "unique_owners imap = np_unique (owners imap)"

definition owners_size :: "IndexMap \<Rightarrow> nat list" where
  "owners_size imap = np_unique_counts (owners imap)"

definition owners_idx :: "(int list \<Rightarrow> nat list) \<Rightarrow> IndexMap \<Rightarrow> nat list" where
  "owners_idx argsort imap = argsort (owners imap)"

definition owners_offsets :: "IndexMap \<Rightarrow> nat list" where
  "owners_offsets imap = offsets_of (owners_size imap)"

subsection \<open>Owned indices of this rank, grouped by the rank that ghosts them (lines 89-102)\<close>

definition shared_ranks :: "IndexMap \<Rightarrow> int list" where
  "shared_ranks imap = np_unique (concat (index_to_dest_ranks imap))"

text \<open>\<^verbatim>\<open>shared_dofs.links(dof)\<close>; a node the adjacency list does not have is an error.\<close>

definition links :: "int list list \<Rightarrow> nat \<Rightarrow> error + int list" where
  "links shared_dofs dof =
     (if dof < length shared_dofs then Inr (shared_dofs ! dof) else Inl IndexError)"

text \<open>The inner loop (lines 95-97) over \<^verbatim>\<open>range(nlocal)\<close>, appending to the list \<^verbatim>\<open>ghosts\<close>.\<close>

fun dof_loop :: "int list list \<Rightarrow> int \<Rightarrow> nat list \<Rightarrow> int list \<Rightarrow> error + int list" where
  "dof_loop shared_dofs shared_rank [] acc = Inr acc"
| "dof_loop shared_dofs shared_rank (dof # dofs) acc =
     (case links shared_dofs dof of
        Inl e \<Rightarrow> Inl e
      | Inr l \<Rightarrow>
          dof_loop shared_dofs shared_rank dofs
            (if shared_rank \<in> set l then acc @ [shared_rank] else acc))"

text \<open>The outer loop (line 94) over \<^verbatim>\<open>shared_ranks\<close>.\<close>

fun rank_loop :: "int list list \<Rightarrow> nat \<Rightarrow> int list \<Rightarrow> int list \<Rightarrow> error + int list" where
  "rank_loop shared_dofs nlocal [] acc = Inr acc"
| "rank_loop shared_dofs nlocal (shared_rank # rs) acc =
     (case dof_loop shared_dofs shared_rank [0..<nlocal] acc of
        Inl e \<Rightarrow> Inl e
      | Inr acc' \<Rightarrow> rank_loop shared_dofs nlocal rs acc')"

text \<open>The script's list \<^verbatim>\<open>ghosts\<close> (the name \<open>ghosts\<close> is the attribute of the index map here).\<close>

definition ghosts_list :: "IndexMap \<Rightarrow> error + int list" where
  "ghosts_list imap =
     rank_loop (index_to_dest_ranks imap) (size_local imap) (shared_ranks imap) []"

definition unique_ghosts :: "int list \<Rightarrow> int list" where
  "unique_ghosts gs = np_unique gs"

definition ghosts_size :: "int list \<Rightarrow> nat list" where
  "ghosts_size gs = np_unique_counts gs"

definition ghosts_offsets :: "int list \<Rightarrow> nat list" where
  "ghosts_offsets gs = offsets_of (ghosts_size gs)"

text \<open>
  The pairs (local index, destination rank) of the index map, read off the adjacency
  list: this is what the claim on the send-slice lengths counts.
\<close>

definition dest_pairs :: "IndexMap \<Rightarrow> (nat \<times> int) set" where
  "dest_pairs imap =
     {(dof, r). dof < size_local imap \<and> r \<in> set (index_to_dest_ranks imap ! dof)}"

subsection \<open>The device kernel \<^verbatim>\<open>copy_range\<close> (lines 106-113)\<close>

text \<open>
  One work-item. The indices are 64-bit integers, compared as signed values. An array
  is indexed as the compiled kernel does it: a negative index counts from the end, and
  an index outside the array addresses no element, where the effect of the access is
  not defined (\<open>None\<close>).
\<close>

definition global_idx :: "nat \<Rightarrow> nat \<Rightarrow> nat \<Rightarrow> int64" where
  "global_idx thread_id block_id blockDim = of_nat (thread_id + block_id * blockDim)"

definition wrap_index :: "nat \<Rightarrow> int \<Rightarrow> nat option" where
  "wrap_index n i =
     (if 0 \<le> i \<and> i < int n then Some (nat i)
      else if - int n \<le> i \<and> i < 0 then Some (nat (i + int n))
      else None)"

definition copy_range ::
  "'a list \<Rightarrow> 'a list \<Rightarrow> int64 \<Rightarrow> int64 \<Rightarrow> nat \<Rightarrow> nat \<Rightarrow> nat \<Rightarrow> 'a list option" where
  "copy_range in_arr out_arr begin end thread_id block_id blockDim =
     (let idx = global_idx thread_id block_id blockDim in
      if sint idx < sint (end - begin)
      then (case wrap_index (length in_arr) (sint (idx + begin)) of
              None \<Rightarrow> None
            | Some src \<Rightarrow>
                (case wrap_index (length out_arr) (sint idx) of
                   None \<Rightarrow> None
                 | Some dst \<Rightarrow> Some (out_arr[dst := in_arr ! src])))
      else Some out_arr)"

subsection \<open>The index buffers and their exchange (lines 116-140)\<close>

text \<open>Lines 119-123: one buffer of global ghost indices per owner.\<close>

fun send_buff_loop ::
  "int64 list \<Rightarrow> nat list \<Rightarrow> nat list \<Rightarrow> nat list \<Rightarrow> int64 list list \<Rightarrow> error + int64 list list" where
  "send_buff_loop g oidx offs [] send_buff = Inr send_buff"
| "send_buff_loop g oidx offs (i # is) send_buff =
     (let begin = offs ! i; end = offs ! (i + 1) in
      case fancy_index g (py_slice oidx begin end) of
        Inl e \<Rightarrow> Inl e
      | Inr b \<Rightarrow> send_buff_loop g oidx offs is (send_buff[i := b]))"

definition send_buff_idx :: "(int list \<Rightarrow> nat list) \<Rightarrow> IndexMap \<Rightarrow> error + int64 list list" where
  "send_buff_idx argsort imap =
     send_buff_loop (ghosts imap) (owners_idx argsort imap) (owners_offsets imap)
       [0..<length (unique_owners imap)]
       (map (\<lambda>size. replicate size 0) (owners_size imap))"

text \<open>
  What the rank does with MPI, in program order. \<open>Isend\<close> is the call of line 127, which
  the source has commented out: no path of the model produces it.
\<close>

datatype request = Recv_request (source: int) (buf_begin: nat) (buf_end: nat)

datatype event = Print nat | Isend int | Irecv request | Waitall "request list"

record comm_state =
  all_requests :: "request list"
  trace :: "event list"

text \<open>Lines 126-129: the loop over the owners prints and posts nothing.\<close>

fun send_loop :: "nat list \<Rightarrow> comm_state \<Rightarrow> comm_state" where
  "send_loop [] st = st"
| "send_loop (i # is) st = send_loop is (st\<lparr>trace := trace st @ [Print i]\<rparr>)"

text \<open>
  Lines 134-138: one receive per rank that ghosts an owned index. The sources are ranks
  of the communicator the index map was built on; a source outside it, for which
  \<^verbatim>\<open>Irecv\<close> raises, is not modelled.
\<close>

fun recv_loop :: "int list \<Rightarrow> nat list \<Rightarrow> nat list \<Rightarrow> comm_state \<Rightarrow> comm_state" where
  "recv_loop ug offs [] st = st"
| "recv_loop ug offs (i # is) st =
     (let begin = offs ! i; end = offs ! (i + 1);
          reqr = Recv_request (ug ! i) begin end
      in recv_loop ug offs is
           (st\<lparr>all_requests := all_requests st @ [reqr], trace := trace st @ [Irecv reqr]\<rparr>))"

text \<open>
  How a step of the script ends: it returns, it raises, or it waits for ever.
  The network is a parameter: \<open>net r\<close> is the message that arrives from rank \<open>r\<close>, if one
  ever does. \<^verbatim>\<open>Waitall\<close> waits until every request is complete, so it waits for ever when
  the message of one request never arrives, whatever the other requests do. When all are
  complete it reports an error if a message was longer than the slice posted for it, and
  otherwise the messages are in the receive buffer.
\<close>

datatype 'a outcome = Blocked | Raised error | Returned 'a

definition arrives :: "(int \<Rightarrow> int64 list option) \<Rightarrow> request \<Rightarrow> bool" where
  "arrives net req \<longleftrightarrow> net (source req) \<noteq> None"

definition fits :: "(int \<Rightarrow> int64 list option) \<Rightarrow> int64 list \<Rightarrow> request \<Rightarrow> bool" where
  "fits net buf req \<longleftrightarrow>
     (case net (source req) of
        None \<Rightarrow> True
      | Some msg \<Rightarrow> length msg \<le> length (py_slice buf (buf_begin req) (buf_end req)))"

fun store_messages :: "(int \<Rightarrow> int64 list option) \<Rightarrow> request list \<Rightarrow> int64 list \<Rightarrow> int64 list" where
  "store_messages net [] buf = buf"
| "store_messages net (req # reqs) buf =
     (case net (source req) of
        None \<Rightarrow> store_messages net reqs buf
      | Some msg \<Rightarrow>
          store_messages net reqs
            (take (buf_begin req) buf @ msg @ drop (buf_begin req + length msg) buf))"

definition waitall :: "(int \<Rightarrow> int64 list option) \<Rightarrow> request list \<Rightarrow> int64 list \<Rightarrow> int64 list outcome" where
  "waitall net reqs buf =
     (if \<not> list_all (arrives net) reqs then Blocked
      else if \<not> list_all (fits net buf) reqs then Raised MPI_ERR_IN_STATUS
      else Returned (store_messages net reqs buf))"

text \<open>Lines 126-140 as one step: the events in program order and the receive buffer.\<close>

definition exchange ::
  "(int \<Rightarrow> int64 list option) \<Rightarrow> int list \<Rightarrow> int list \<Rightarrow> event list \<times> int64 list outcome" where
  "exchange net uo gs =
     (let st0 = \<lparr>all_requests = [], trace = []\<rparr>;
          st1 = send_loop [0..<length uo] st0;
          recv_buff_idx = replicate (sum_list (ghosts_size gs)) 0;
          st2 = recv_loop (unique_ghosts gs) (ghosts_offsets gs) [0..<length (unique_ghosts gs)] st1
      in (trace st2 @ [Waitall (all_requests st2)],
          waitall net (all_requests st2) recv_buff_idx))"

subsection \<open>Received indices as local indices, and the plan (lines 142-148)\<close>

definition ghosts_idx :: "IndexMap \<Rightarrow> int64 list \<Rightarrow> int64 list" where
  "ghosts_idx imap recv_buff_idx = map (\<lambda>g. g - fst (local_range imap)) recv_buff_idx"

record plan =
  owners_data_d :: "nat list \<times> nat list \<times> nat list \<times> int list"
  ghosts_data_d :: "int64 list \<times> nat list \<times> nat list \<times> int list"

definition plan_build ::
  "(int list \<Rightarrow> nat list) \<Rightarrow> (int \<Rightarrow> int64 list option) \<Rightarrow> IndexMap \<Rightarrow> plan outcome" where
  "plan_build argsort net imap =
     (case ghosts_list imap of
        Inl e \<Rightarrow> Raised e
      | Inr gs \<Rightarrow>
          (case send_buff_idx argsort imap of
             Inl e \<Rightarrow> Raised e
           | Inr send_buff \<Rightarrow>
               (case snd (exchange net (unique_owners imap) gs) of
                  Blocked \<Rightarrow> Blocked
                | Raised e \<Rightarrow> Raised e
                | Returned recv_buff_idx \<Rightarrow>
                    Returned
                      \<lparr>owners_data_d =
                         (owners_idx argsort imap, owners_size imap, owners_offsets imap,
                          unique_owners imap),
                       ghosts_data_d =
                         (ghosts_idx imap recv_buff_idx, ghosts_size gs, ghosts_offsets gs,
                          unique_ghosts gs)\<rparr>)))"

subsection \<open>Notions used to state the properties\<close>

text \<open>Events that post a request, and events that wait for requests.\<close>

definition is_post :: "event \<Rightarrow> bool" where
  "is_post e = (case e of Isend _ \<Rightarrow> True | Irecv _ \<Rightarrow> True | _ \<Rightarrow> False)"

definition is_wait :: "event \<Rightarrow> bool" where
  "is_wait e = (case e of Waitall _ \<Rightarrow> True | _ \<Rightarrow> False)"

text \<open>The request that iteration \<open>i\<close> of the receive loop posts.\<close>

definition recv_request_of :: "int list \<Rightarrow> nat list \<Rightarrow> nat \<Rightarrow> request" where
  "recv_request_of ug offs i = Recv_request (ug ! i) (offs ! i) (offs ! (i + 1))"

text \<open>The buffer that iteration \<open>i\<close> of the loop of lines 120-123 stores, when no index is out of range.\<close>

definition send_buff_entry :: "int64 list \<Rightarrow> nat list \<Rightarrow> nat list \<Rightarrow> nat \<Rightarrow> int64 list" where
  "send_buff_entry g oidx offs i = map (\<lambda>k. g ! k) (py_slice oidx (offs ! i) (offs ! Suc i))"

text \<open>
  The metadata of all ranks, rank \<open>r\<close> holding \<open>world ! r\<close>. The owner's map \<open>om\<close> reports
  the global index \<open>g\<close> as ghosted by rank \<open>r\<close> when \<open>r\<close> is among the destination ranks of
  the owner's local index for \<open>g\<close>. The metadata of rank \<open>r\<close> is asymmetric when one of its
  ghosts is not reported so by its declared owner.
\<close>

definition reports_ghost :: "IndexMap \<Rightarrow> int64 \<Rightarrow> int \<Rightarrow> bool" where
  "reports_ghost om g r \<longleftrightarrow>
     (let dof = sint (g - fst (local_range om)) in
      0 \<le> dof \<and> nat dof < size_local om \<and> nat dof < length (index_to_dest_ranks om) \<and>
      r \<in> set (index_to_dest_ranks om ! nat dof))"

definition asymmetric :: "IndexMap list \<Rightarrow> nat \<Rightarrow> bool" where
  "asymmetric world r \<longleftrightarrow>
     (\<exists>k < length (ghosts (world ! r)).
        \<not> (k < length (owners (world ! r)) \<and>
           0 \<le> owners (world ! r) ! k \<and>
           nat (owners (world ! r) ! k) < length world \<and>
           reports_ghost (world ! nat (owners (world ! r) ! k)) (ghosts (world ! r) ! k) (int r)))"

text \<open>
  Two sorting routines that keep the promise of \<^verbatim>\<open>np.argsort\<close>: one stable, the other
  putting equal keys in reverse order.
\<close>

definition argsort_stable :: "int list \<Rightarrow> nat list" where
  "argsort_stable a = sort_key (\<lambda>k. a ! k) [0..<length a]"

definition argsort_rev_ties :: "int list \<Rightarrow> nat list" where
  "argsort_rev_ties a = rev (sort_key (\<lambda>k. - (a ! k)) [0..<length a])"

subsection \<open>Example index maps\<close>

text \<open>
  Two ranks: rank 0 owns the global indices 0, 1, 2 and ghosts 3; rank 1 owns 3, 4 and
  ghosts 0.
\<close>

definition imap_rank0 :: IndexMap where
  "imap_rank0 = \<lparr>size_local = 3, local_range = (0, 3), ghosts = [3], owners = [1],
     index_to_dest_ranks = [[1], [], []]\<rparr>"

definition imap_rank1 :: IndexMap where
  "imap_rank1 = \<lparr>size_local = 2, local_range = (3, 5), ghosts = [0], owners = [0],
     index_to_dest_ranks = [[0], []]\<rparr>"

text \<open>The same, but rank 1 does not report its index 3 as ghosted by anyone.\<close>

definition imap_rank1_silent :: IndexMap where
  "imap_rank1_silent = \<lparr>size_local = 2, local_range = (3, 5), ghosts = [], owners = [],
     index_to_dest_ranks = [[], []]\<rparr>"

text \<open>
  Rank 0 ghosts the index 3 and names rank 1 as its owner, but rank 1 reports no index as
  ghosted: the metadata of rank 0 is asymmetric.
\<close>

definition imap_asym0 :: IndexMap where
  "imap_asym0 = \<lparr>size_local = 3, local_range = (0, 3), ghosts = [3], owners = [1],
     index_to_dest_ranks = [[], [], []]\<rparr>"

definition world_asym :: "IndexMap list" where
  "world_asym = [imap_asym0, imap_rank1_silent]"

text \<open>A rank with three ghosts, two of them owned by rank 1, and two neighbours.\<close>

definition imap_three :: IndexMap where
  "imap_three = \<lparr>size_local = 3, local_range = (10, 13), ghosts = [3, 7, 4], owners = [1, 2, 1],
     index_to_dest_ranks = [[1], [], [1, 2]]\<rparr>"

text \<open>A rank with four ghosts, the last two of them owned by rank 1.\<close>

definition imap_ties :: IndexMap where
  "imap_ties = \<lparr>size_local = 2, local_range = (0, 2), ghosts = [9, 7, 4, 5], owners = [3, 2, 1, 1],
     index_to_dest_ranks = [[], []]\<rparr>"

text \<open>A rank with no ghosts and no destination ranks.\<close>

definition imap_alone :: IndexMap where
  "imap_alone = \<lparr>size_local = 5, local_range = (0, 5), ghosts = [], owners = [],
     index_to_dest_ranks = [[], [], [], [], []]\<rparr>"

section \<open>The scatter operations of the specification\<close>

text \<open>
  The script imports \<^verbatim>\<open>scatter_reverse\<close> from a module \<^verbatim>\<open>scatterer\<close> that is not among the
  sources, and calls it only after \<^verbatim>\<open>exit()\<close>. The two operations are modelled from the
  specification (sections 3, 4.4 and 8), on all ranks at once: the buffer of a rank holds
  its owned values first and its ghost values after them, and every ghost slot names the
  rank that owns the index and the local index there.
\<close>

text \<open>Modelled from the spec: the value buffer of one rank with the ownership of its ghost
  slots (module \<^verbatim>\<open>scatterer\<close> is missing).\<close>

record 'v rank_state =
  local_size :: nat
  ghost_source :: "(nat \<times> nat) list"
  buffer :: "'v list"

text \<open>Modelled from the spec: the invariants of the index map and of the buffer length.\<close>

definition valid_world :: "'v rank_state list \<Rightarrow> bool" where
  "valid_world world \<longleftrightarrow>
     (\<forall>st \<in> set world.
        length (buffer st) = local_size st + length (ghost_source st) \<and>
        (\<forall>(owner, i) \<in> set (ghost_source st).
           owner < length world \<and> i < local_size (world ! owner)))"

text \<open>Modelled from the spec: \<^verbatim>\<open>scatter_forward\<close> of the missing module \<^verbatim>\<open>scatterer\<close>; the
  value at each owned index overwrites every ghost slot that holds the index.\<close>

definition scatter_forward :: "'v rank_state list \<Rightarrow> 'v rank_state list" where
  "scatter_forward world =
     map (\<lambda>st. st\<lparr>buffer :=
            take (local_size st) (buffer st) @
            map (\<lambda>(owner, i). buffer (world ! owner) ! i) (ghost_source st)\<rparr>) world"

text \<open>Modelled from the spec: the ghost values that are sent to the owner of local index
  \<open>i\<close> on rank \<open>owner\<close>, by rank and then by ghost slot.\<close>

definition contributions :: "'v rank_state list \<Rightarrow> nat \<Rightarrow> nat \<Rightarrow> 'v list" where
  "contributions world owner i =
     concat (map (\<lambda>st. map (\<lambda>slot. buffer st ! (local_size st + slot))
                         (filter (\<lambda>slot. ghost_source st ! slot = (owner, i))
                            [0..<length (ghost_source st)])) world)"

text \<open>Modelled from the spec: \<^verbatim>\<open>scatter_reverse\<close> of the missing module \<^verbatim>\<open>scatterer\<close>; the
  ghost values are combined into the owned slot by a reduction, which the specification
  leaves open between a sum and an overwrite. The optional broadcast back is left out.\<close>

definition scatter_reverse :: "('v \<Rightarrow> 'v \<Rightarrow> 'v) \<Rightarrow> 'v rank_state list \<Rightarrow> 'v rank_state list" where
  "scatter_reverse reduce world =
     map (\<lambda>owner. (world ! owner)\<lparr>buffer :=
            map (\<lambda>i. foldl reduce (buffer (world ! owner) ! i) (contributions world owner i))
              [0..<local_size (world ! owner)] @
            drop (local_size (world ! owner)) (buffer (world ! owner))\<rparr>) [0..<length world]"


text \<open>Modelled from the spec: the reduction by sum.\<close>

definition reduce_sum :: "int \<Rightarrow> int \<Rightarrow> int" where
  "reduce_sum a g = a + g"

text \<open>Modelled from the spec: the reduction by overwrite (the last writer wins).\<close>

definition reduce_overwrite :: "'v \<Rightarrow> 'v \<Rightarrow> 'v" where
  "reduce_overwrite a g = g"

text \<open>Modelled from the spec: the two ranks of the scenario of section 8, with the ghost
  slots holding values computed locally.\<close>

definition world_two :: "int rank_state list" where
  "world_two =
     [\<lparr>local_size = 3, ghost_source = [(1, 0)], buffer = [10, 20, 30, 7]\<rparr>,
      \<lparr>local_size = 2, ghost_source = [(0, 0)], buffer = [40, 50, 3]\<rparr>]"

section \<open>Properties\<close>

subsection \<open>Counting\<close>

lemma sum_list_indicator:
  "distinct us \<Longrightarrow> x \<in> set us \<Longrightarrow> sum_list (map (\<lambda>u. if x = u then 1 else 0) us) = (1::nat)"
proof (induction us)
  case Nil
  then show ?case by simp
next
  case (Cons u us)
  show ?case
  proof (cases "x = u")
    case True
    with Cons.prems have "x \<notin> set us" by simp
    then have "sum_list (map (\<lambda>u. if x = u then 1 else 0) us) = (0::nat)"
      by (induction us) auto
    with True show ?thesis by simp
  next
    case False
    with Cons show ?thesis by simp
  qed
qed

lemma sum_list_count_list_distinct:
  "distinct us \<Longrightarrow> set xs \<subseteq> set us \<Longrightarrow> sum_list (map (count_list xs) us) = length xs"
proof (induction xs)
  case Nil
  then show ?case by (induction us) auto
next
  case (Cons x xs)
  have "sum_list (map (count_list (x # xs)) us)
        = sum_list (map (\<lambda>u. count_list xs u + (if x = u then 1 else 0)) us)"
    by (rule arg_cong [where f = sum_list]) auto
  also have "\<dots> = sum_list (map (count_list xs) us) + sum_list (map (\<lambda>u. if x = u then 1 else 0) us)"
    by (simp add: sum_list_addf)
  also have "sum_list (map (\<lambda>u. if x = u then 1 else 0) us) = (1::nat)"
    using Cons.prems by (simp add: sum_list_indicator)
  finally show ?case using Cons by simp
qed

lemma distinct_np_unique: "distinct (np_unique a)"
  by (simp add: np_unique_def)

lemma set_np_unique: "set (np_unique a) = set a"
  by (simp add: np_unique_def)

lemma sorted_np_unique: "sorted (np_unique a)"
  by (simp add: np_unique_def)

lemma sum_np_unique_counts: "sum_list (np_unique_counts a) = length a"
  unfolding np_unique_counts_def
  by (rule sum_list_count_list_distinct) (simp_all add: distinct_np_unique set_np_unique)

subsection \<open>The loops that build the list of destination ranks\<close>

lemma dof_loop_ok:
  "\<forall>dof \<in> set dofs. dof < length adj \<Longrightarrow>
   dof_loop adj r dofs acc = Inr (acc @ map (\<lambda>_. r) (filter (\<lambda>dof. r \<in> set (adj ! dof)) dofs))"
  by (induction dofs arbitrary: acc) (simp_all add: links_def)

lemma rank_loop_ok:
  "n \<le> length adj \<Longrightarrow>
   rank_loop adj n rs acc =
     Inr (acc @ concat (map (\<lambda>r. map (\<lambda>_. r) (filter (\<lambda>dof. r \<in> set (adj ! dof)) [0..<n])) rs))"
  by (induction rs arbitrary: acc) (simp_all add: dof_loop_ok)

lemma ghosts_list_ok:
  assumes "size_local imap \<le> length (index_to_dest_ranks imap)"
  shows "ghosts_list imap =
     Inr (concat (map (\<lambda>r. map (\<lambda>_. r)
            (filter (\<lambda>dof. r \<in> set (index_to_dest_ranks imap ! dof)) [0..<size_local imap]))
          (shared_ranks imap)))"
  using assms by (simp add: ghosts_list_def rank_loop_ok)

lemma card_filter_upt: "card {dof. dof < n \<and> P dof} = length (filter P [0..<n])"
proof -
  have "{dof. dof < n \<and> P dof} = set (filter P [0..<n])" by auto
  moreover have "card (set (filter P [0..<n])) = length (filter P [0..<n])"
    by (rule distinct_card) simp
  ultimately show ?thesis by simp
qed

lemma dest_pairs_card:
  assumes "size_local imap \<le> length (index_to_dest_ranks imap)"
  shows "card (dest_pairs imap) =
     sum_list (map (\<lambda>r. length (filter (\<lambda>dof. r \<in> set (index_to_dest_ranks imap ! dof)) [0..<size_local imap]))
       (shared_ranks imap))"
proof -
  let ?adj = "index_to_dest_ranks imap" and ?n = "size_local imap"
  let ?A = "\<lambda>r. (\<lambda>dof. (dof, r)) ` {dof. dof < ?n \<and> r \<in> set (?adj ! dof)}"
  have mem: "r \<in> set (shared_ranks imap)" if "dof < ?n" "r \<in> set (?adj ! dof)" for dof r
  proof -
    from that assms have "?adj ! dof \<in> set ?adj" by simp
    with that show ?thesis by (auto simp: shared_ranks_def set_np_unique)
  qed
  have eq: "dest_pairs imap = (\<Union>r \<in> set (shared_ranks imap). ?A r)"
    using mem by (auto simp: dest_pairs_def)
  have "card (\<Union>r \<in> set (shared_ranks imap). ?A r) = (\<Sum>r \<in> set (shared_ranks imap). card (?A r))"
    by (rule card_UN_disjoint) auto
  also have "\<dots> = (\<Sum>r \<in> set (shared_ranks imap). length (filter (\<lambda>dof. r \<in> set (?adj ! dof)) [0..<?n]))"
    by (rule sum.cong) (simp_all add: card_image inj_on_def card_filter_upt)
  also have "\<dots> = sum_list (map (\<lambda>r. length (filter (\<lambda>dof. r \<in> set (?adj ! dof)) [0..<?n])) (shared_ranks imap))"
    by (simp add: sum_list_distinct_conv_sum_set shared_ranks_def distinct_np_unique)
  finally show ?thesis using eq by simp
qed

text \<open>The offsets are the prefix sums of the sizes.\<close>

lemma length_cumsum_from: "length (cumsum_from acc xs) = length xs"
  by (induction xs arbitrary: acc) simp_all

lemma cumsum_from_nth:
  "i < length xs \<Longrightarrow> cumsum_from acc xs ! i = acc + sum_list (take (Suc i) xs)"
proof (induction xs arbitrary: acc i)
  case Nil
  then show ?case by simp
next
  case (Cons x xs)
  then show ?case by (cases i) simp_all
qed

lemma length_offsets_of: "length (offsets_of sizes) = Suc (length sizes)"
  by (simp add: offsets_of_def np_cumsum_def length_cumsum_from)

lemma offsets_of_nth: "i \<le> length sizes \<Longrightarrow> offsets_of sizes ! i = sum_list (take i sizes)"
  by (cases i) (simp_all add: offsets_of_def np_cumsum_def cumsum_from_nth)

lemma offsets_of_Suc:
  "i < length sizes \<Longrightarrow> offsets_of sizes ! Suc i = offsets_of sizes ! i + sizes ! i"
  by (simp add: offsets_of_nth take_Suc_conv_app_nth)

lemma offsets_of_last: "offsets_of sizes ! length sizes = sum_list sizes"
  by (simp add: offsets_of_nth)

lemma offsets_of_0: "offsets_of sizes ! 0 = 0"
  by (simp add: offsets_of_def)

lemma slice_lengths_sum:
  "sum_list (map (\<lambda>i. offsets_of sizes ! Suc i - offsets_of sizes ! i) [0..<length sizes])
   = sum_list sizes"
proof -
  have "map (\<lambda>i. offsets_of sizes ! Suc i - offsets_of sizes ! i) [0..<length sizes]
        = map (\<lambda>i. sizes ! i) [0..<length sizes]"
    by (rule map_cong [OF refl]) (simp add: offsets_of_Suc)
  then show ?thesis by (simp add: map_nth)
qed

text \<open>
  C6. The groupings partition the work. For a well-formed index map the per-owner
  slices, which the offsets delimit, start at 0, follow one another, end at the number
  of ghosts and have the per-owner sizes as lengths, so their lengths add up to the
  number of ghosts. The loops over the destination ranks finish without error, and the
  per-destination slices do the same with the number of pairs (local index, destination
  rank).
\<close>

theorem plan_sizes_partition:
  assumes "wf_imap imap"
  shows "sum_list (owners_size imap) = num_ghosts imap \<and>
         length (owners_offsets imap) = Suc (length (owners_size imap)) \<and>
         owners_offsets imap ! 0 = 0 \<and>
         (\<forall>i < length (owners_size imap).
            owners_offsets imap ! Suc i = owners_offsets imap ! i + owners_size imap ! i) \<and>
         owners_offsets imap ! length (owners_size imap) = num_ghosts imap \<and>
         sum_list (map (\<lambda>i. owners_offsets imap ! Suc i - owners_offsets imap ! i)
                     [0..<length (owners_size imap)]) = num_ghosts imap \<and>
         (\<exists>gs. ghosts_list imap = Inr gs \<and>
            sum_list (ghosts_size gs) = card (dest_pairs imap) \<and>
            length (ghosts_offsets gs) = Suc (length (ghosts_size gs)) \<and>
            ghosts_offsets gs ! 0 = 0 \<and>
            (\<forall>i < length (ghosts_size gs).
               ghosts_offsets gs ! Suc i = ghosts_offsets gs ! i + ghosts_size gs ! i) \<and>
            ghosts_offsets gs ! length (ghosts_size gs) = card (dest_pairs imap) \<and>
            sum_list (map (\<lambda>i. ghosts_offsets gs ! Suc i - ghosts_offsets gs ! i)
                        [0..<length (ghosts_size gs)]) = card (dest_pairs imap))"
proof -
  from assms have len: "length (owners imap) = length (ghosts imap)"
    and adj: "size_local imap \<le> length (index_to_dest_ranks imap)"
    by (simp_all add: wf_imap_def)
  have tot: "sum_list (owners_size imap) = num_ghosts imap"
    by (simp add: owners_size_def sum_np_unique_counts num_ghosts_def len)
  have own: "length (owners_offsets imap) = Suc (length (owners_size imap)) \<and>
         owners_offsets imap ! 0 = 0 \<and>
         (\<forall>i < length (owners_size imap).
            owners_offsets imap ! Suc i = owners_offsets imap ! i + owners_size imap ! i) \<and>
         owners_offsets imap ! length (owners_size imap) = num_ghosts imap \<and>
         sum_list (map (\<lambda>i. owners_offsets imap ! Suc i - owners_offsets imap ! i)
                     [0..<length (owners_size imap)]) = num_ghosts imap"
    unfolding owners_offsets_def
    by (simp add: length_offsets_of offsets_of_0 offsets_of_Suc offsets_of_last slice_lengths_sum tot)
  obtain gs where gs: "ghosts_list imap = Inr gs"
    and gtot: "sum_list (ghosts_size gs) = card (dest_pairs imap)"
    by (simp add: ghosts_list_ok [OF adj] ghosts_size_def sum_np_unique_counts
        dest_pairs_card [OF adj] length_concat comp_def)
  have gh: "length (ghosts_offsets gs) = Suc (length (ghosts_size gs)) \<and>
            ghosts_offsets gs ! 0 = 0 \<and>
            (\<forall>i < length (ghosts_size gs).
               ghosts_offsets gs ! Suc i = ghosts_offsets gs ! i + ghosts_size gs ! i) \<and>
            ghosts_offsets gs ! length (ghosts_size gs) = card (dest_pairs imap) \<and>
            sum_list (map (\<lambda>i. ghosts_offsets gs ! Suc i - ghosts_offsets gs ! i)
                        [0..<length (ghosts_size gs)]) = card (dest_pairs imap)"
    unfolding ghosts_offsets_def
    by (simp add: length_offsets_of offsets_of_0 offsets_of_Suc offsets_of_last slice_lengths_sum gtot)
  from tot own gs gtot gh show ?thesis by blast
qed

text \<open>C6, at the example \<open>imap_three\<close>.\<close>

theorem plan_sizes_partition_witness:
  "wf_imap imap_three \<and> num_ghosts imap_three = 3 \<and>
   owners_size imap_three = [2, 1] \<and> owners_offsets imap_three = [0, 2, 3] \<and>
   ghosts_list imap_three = Inr [1, 1, 2] \<and>
   ghosts_size [1, 1, 2] = [2, 1] \<and> ghosts_offsets [1, 1, 2] = [0, 2, 3] \<and>
   card (dest_pairs imap_three) = 3"
proof -
  have wf: "wf_imap imap_three" by (simp add: wf_imap_def imap_three_def)
  have gl: "ghosts_list imap_three = Inr [1, 1, 2]" by code_simp
  have ng: "num_ghosts imap_three = 3" by (simp add: num_ghosts_def imap_three_def)
  have os: "owners_size imap_three = [2, 1]" by code_simp
  have oo: "owners_offsets imap_three = [0, 2, 3]" by code_simp
  have gs: "ghosts_size [1, 1, 2] = [2, 1]" by code_simp
  have go: "ghosts_offsets [1, 1, 2] = [0, 2, 3]" by code_simp
  from plan_sizes_partition [OF wf] gl gs
  have "card (dest_pairs imap_three) = 3" by simp
  with wf gl ng os oo gs go show ?thesis by simp
qed

subsection \<open>Offsets and slices\<close>

lemma count_list_replicate:
  "count_list (replicate n y) x = (if x = y then n else 0)"
  by (induction n) auto

lemma count_list_blocks:
  "distinct us \<Longrightarrow>
   count_list (concat (map (\<lambda>u. replicate (f u) u) us)) x = (if x \<in> set us then f x else 0)"
  by (induction us) (auto simp: count_list_replicate)

lemma set_blocks_subset: "set (concat (map (\<lambda>u. replicate (f u) u) us)) \<subseteq> set us"
  by (induction us) auto

lemma sorted_blocks: "sorted us \<Longrightarrow> sorted (concat (map (\<lambda>u. replicate (f u) u) us))"
proof (induction us)
  case Nil
  then show ?case by simp
next
  case (Cons u us)
  have "\<forall>y \<in> set (concat (map (\<lambda>u. replicate (f u) u) us)). u \<le> y"
    using Cons.prems set_blocks_subset [of f us] by auto
  with Cons show ?case by (auto simp: sorted_append)
qed

lemma sorted_groups:
  fixes s :: "int list"
  assumes "sorted s" "sorted us" "distinct us" "set s \<subseteq> set us"
  shows "s = concat (map (\<lambda>u. replicate (count_list s u) u) us)"
proof -
  let ?b = "concat (map (\<lambda>u. replicate (count_list s u) u) us)"
  have "mset ?b = mset s"
  proof (rule multiset_eqI)
    fix x
    show "count (mset ?b) x = count (mset s) x"
      using assms(3,4) by (auto simp: count_mset count_list_blocks count_list_0_iff)
  qed
  moreover have "sorted ?b" using assms(2) by (rule sorted_blocks)
  ultimately have "sort s = ?b" by (rule properties_for_sort)
  moreover have "sort s = s" using assms(1) by (simp add: sort_key_id_if_sorted)
  ultimately show ?thesis by simp
qed

lemma slice_concat:
  assumes "i < length bs"
  shows "py_slice (concat bs) (sum_list (map length (take i bs)))
           (sum_list (map length (take (Suc i) bs))) = bs ! i"
proof -
  have c: "concat bs = concat (take i bs) @ bs ! i @ concat (drop (Suc i) bs)"
    using assms by (metis concat.simps(2) concat_append id_take_nth_drop)
  have t: "take (Suc i) bs = take i bs @ [bs ! i]"
    using assms by (simp add: take_Suc_conv_app_nth)
  have l: "length (concat (take i bs)) = sum_list (map length (take i bs))"
    by (simp add: length_concat)
  show ?thesis
    unfolding py_slice_def t by (subst c) (simp add: l [symmetric])
qed

lemma mset_map_perm:
  assumes "mset p = mset [0..<length a]"
  shows "mset (map (\<lambda>k. a ! k) p) = mset a"
proof -
  have "mset (map (\<lambda>k. a ! k) p) = image_mset (\<lambda>k. a ! k) (mset p)" by simp
  also have "\<dots> = image_mset (\<lambda>k. a ! k) (mset [0..<length a])" by (simp only: assms)
  also have "\<dots> = mset (map (\<lambda>k. a ! k) [0..<length a])" by simp
  also have "map (\<lambda>k. a ! k) [0..<length a] = a" by (rule map_nth)
  finally show ?thesis .
qed

lemma perm_bound:
  assumes "mset p = mset [0..<n]" "k \<in> set p"
  shows "k < n"
proof -
  have "set p = set [0..<n]" using assms(1) by (rule mset_eq_setD)
  with assms(2) show ?thesis by simp
qed

text \<open>The owners read through a sorting permutation, slice by slice.\<close>

lemma owner_slice:
  assumes ok: "argsort_ok p a" and i: "i < length (np_unique a)"
  shows "map (\<lambda>k. a ! k) (py_slice p (offsets_of (np_unique_counts a) ! i)
            (offsets_of (np_unique_counts a) ! Suc i))
         = replicate (np_unique_counts a ! i) (np_unique a ! i)"
proof -
  let ?s = "map (\<lambda>k. a ! k) p" and ?us = "np_unique a"
  let ?blk = "\<lambda>u. replicate (count_list ?s u) u"
  from ok have perm: "mset p = mset [0..<length a]" and srt: "sorted ?s"
    by (simp_all add: argsort_ok_def)
  have ms: "mset ?s = mset a" using perm by (rule mset_map_perm)
  have cnt: "count_list ?s u = count_list a u" for u
    using ms by (metis count_mset)
  have "set ?s = set a" using ms by (rule mset_eq_setD)
  then have sub: "set ?s \<subseteq> set ?us" by (simp add: set_np_unique)
  have s: "?s = concat (map ?blk ?us)"
    using srt sorted_np_unique distinct_np_unique sub by (rule sorted_groups)
  have lens: "map length (map ?blk ?us) = np_unique_counts a"
    by (simp add: np_unique_counts_def cnt comp_def)
  have o1: "offsets_of (np_unique_counts a) ! i = sum_list (map length (take i (map ?blk ?us)))"
    using i by (simp add: offsets_of_nth np_unique_counts_def take_map cnt comp_def)
  have o2: "offsets_of (np_unique_counts a) ! Suc i = sum_list (map length (take (Suc i) (map ?blk ?us)))"
    using i by (subst offsets_of_nth) (simp_all add: np_unique_counts_def take_map cnt comp_def)
  have "map (\<lambda>k. a ! k) (py_slice p (offsets_of (np_unique_counts a) ! i)
            (offsets_of (np_unique_counts a) ! Suc i))
        = py_slice ?s (offsets_of (np_unique_counts a) ! i) (offsets_of (np_unique_counts a) ! Suc i)"
    by (simp add: py_slice_def take_map drop_map)
  also have "\<dots> = py_slice (concat (map ?blk ?us)) (sum_list (map length (take i (map ?blk ?us))))
       (sum_list (map length (take (Suc i) (map ?blk ?us))))"
    using s o1 o2 by simp
  also have "\<dots> = map ?blk ?us ! i"
    by (rule slice_concat) (simp add: i)
  also have "\<dots> = replicate (np_unique_counts a ! i) (np_unique a ! i)"
    using i by (simp add: np_unique_counts_def cnt)
  finally show ?thesis .
qed

lemma length_np_unique_counts: "length (np_unique_counts a) = length (np_unique a)"
  by (simp add: np_unique_counts_def)

lemma set_py_slice: "set (py_slice xs b e) \<subseteq> set xs"
  unfolding py_slice_def by (meson set_take_subset set_drop_subset subset_trans)

lemma count_list_card: "count_list a u = card {k. k < length a \<and> a ! k = u}"
proof -
  have "count_list a u = length (filter ((=) u) a)" by (rule count_list_eq_length_filter)
  also have "\<dots> = card {k. k < length a \<and> u = a ! k}" by (rule length_filter_conv_card)
  also have "{k. k < length a \<and> u = a ! k} = {k. k < length a \<and> a ! k = u}" by auto
  finally show ?thesis .
qed

lemma distinct_py_slice: "distinct xs \<Longrightarrow> distinct (py_slice xs b e)"
  by (simp add: py_slice_def)

lemma owner_slice_set:
  assumes ok: "argsort_ok p a" and i: "i < length (np_unique a)"
  shows "set (py_slice p (offsets_of (np_unique_counts a) ! i) (offsets_of (np_unique_counts a) ! Suc i))
         = {k. k < length a \<and> a ! k = np_unique a ! i}"
proof -
  let ?sl = "py_slice p (offsets_of (np_unique_counts a) ! i) (offsets_of (np_unique_counts a) ! Suc i)"
  let ?T = "{k. k < length a \<and> a ! k = np_unique a ! i}"
  from ok have perm: "mset p = mset [0..<length a]" by (simp add: argsort_ok_def)
  have m: "map (\<lambda>k. a ! k) ?sl = replicate (np_unique_counts a ! i) (np_unique a ! i)"
    using ok i by (rule owner_slice)
  have sub: "set ?sl \<subseteq> ?T"
  proof
    fix k assume k: "k \<in> set ?sl"
    moreover have "set ?sl \<subseteq> set p" by (rule set_py_slice)
    ultimately have "k \<in> set p" by auto
    then have "k < length a" by (rule perm_bound [OF perm])
    moreover have "a ! k \<in> set (map (\<lambda>k. a ! k) ?sl)" using k by simp
    then have "a ! k = np_unique a ! i" unfolding m by simp
    ultimately show "k \<in> ?T" by simp
  qed
  have "distinct p" using perm by (metis distinct_upt mset_eq_imp_distinct_iff)
  then have "card (set ?sl) = length ?sl" by (simp add: distinct_card distinct_py_slice)
  also have "\<dots> = np_unique_counts a ! i" using arg_cong [OF m, of length] by simp
  also have "\<dots> = card ?T" using i by (simp add: np_unique_counts_def count_list_card)
  finally have "card (set ?sl) = card ?T" .
  with sub show ?thesis by (simp add: card_subset_eq)
qed

text \<open>The two example routines: both sort, and the stable one is stable.\<close>

lemma argsort_rev_ties_sorts: "argsort_ok (argsort_rev_ties a) a"
proof -
  let ?ys = "sort_key (\<lambda>k. - (a ! k)) [0..<length a]"
  have "sorted (map (\<lambda>k. - (a ! k)) ?ys)" by (rule sorted_sort_key)
  then have "sorted_wrt (\<lambda>x y. a ! y \<le> a ! x) ?ys"
    by (simp add: sorted_wrt_map)
  then have "sorted (map (\<lambda>k. a ! k) (rev ?ys))"
    by (simp add: sorted_wrt_map sorted_wrt_rev)
  then show ?thesis by (simp add: argsort_ok_def argsort_rev_ties_def)
qed



lemma owners_read_sorted:
  assumes ok: "argsort_ok p a"
  shows "map (\<lambda>k. a ! k) p =
     concat (map (\<lambda>i. replicate (np_unique_counts a ! i) (np_unique a ! i)) [0..<length (np_unique a)])"
proof -
  let ?s = "map (\<lambda>k. a ! k) p" and ?us = "np_unique a"
  from ok have perm: "mset p = mset [0..<length a]" and srt: "sorted ?s"
    by (simp_all add: argsort_ok_def)
  have ms: "mset ?s = mset a" using perm by (rule mset_map_perm)
  have cnt: "count_list ?s u = count_list a u" for u
    using ms by (metis count_mset)
  have "set ?s = set a" using ms by (rule mset_eq_setD)
  then have sub: "set ?s \<subseteq> set ?us" by (simp add: set_np_unique)
  have "?s = concat (map (\<lambda>u. replicate (count_list ?s u) u) ?us)"
    using srt sorted_np_unique distinct_np_unique sub by (rule sorted_groups)
  also have "map (\<lambda>u. replicate (count_list ?s u) u) ?us
      = map (\<lambda>u. replicate (count_list a u) u) (map (\<lambda>i. ?us ! i) [0..<length ?us])"
    by (simp only: map_nth cnt)
  also have "\<dots> = map (\<lambda>i. replicate (np_unique_counts a ! i) (np_unique a ! i)) [0..<length ?us]"
    by (simp add: np_unique_counts_def comp_def)
  finally show ?thesis .
qed

text \<open>
  C1 (as amended). The ghost slots are sorted by owner rank by \<^verbatim>\<open>np.argsort\<close> with its
  default kind, which returns a permutation that sorts and promises nothing on equal
  keys. Read through \<open>owners_idx\<close> the owners are the blocks of the distinct owners in
  increasing order, block \<open>i\<close> of length \<open>owners_size[i]\<close>; the offsets are the prefix sums
  of the per-owner counts; and the slice of owner \<open>i\<close> holds exactly the slots that
  \<open>unique_owners[i]\<close> owns. The order of two slots of one owner is not part of it.
\<close>

theorem owners_idx_groups_by_owner:
  assumes ok: "argsort_ok (argsort (owners imap)) (owners imap)"
  shows "map (\<lambda>k. owners imap ! k) (owners_idx argsort imap) =
       concat (map (\<lambda>i. replicate (owners_size imap ! i) (unique_owners imap ! i))
                 [0..<length (unique_owners imap)]) \<and>
     length (owners_offsets imap) = Suc (length (unique_owners imap)) \<and>
     (\<forall>i \<le> length (unique_owners imap).
        owners_offsets imap ! i = sum_list (take i (owners_size imap))) \<and>
     (\<forall>i < length (unique_owners imap).
        set (py_slice (owners_idx argsort imap) (owners_offsets imap ! i) (owners_offsets imap ! Suc i))
          = {k. k < length (owners imap) \<and> owners imap ! k = unique_owners imap ! i})"
proof -
  from ok have ok': "argsort_ok (owners_idx argsort imap) (owners imap)" by (simp add: owners_idx_def)
  have len: "length (owners_size imap) = length (unique_owners imap)"
    by (simp add: owners_size_def unique_owners_def length_np_unique_counts)
  have 1: "map (\<lambda>k. owners imap ! k) (owners_idx argsort imap) =
       concat (map (\<lambda>i. replicate (owners_size imap ! i) (unique_owners imap ! i))
                 [0..<length (unique_owners imap)])"
    using owners_read_sorted [OF ok'] by (simp add: owners_size_def unique_owners_def)
  have 3: "length (owners_offsets imap) = Suc (length (unique_owners imap))"
    by (simp add: owners_offsets_def length_offsets_of len)
  have 4: "owners_offsets imap ! i = sum_list (take i (owners_size imap))"
    if "i \<le> length (unique_owners imap)" for i
    using that by (simp add: owners_offsets_def offsets_of_nth len)
  have 5: "set (py_slice (owners_idx argsort imap) (owners_offsets imap ! i) (owners_offsets imap ! Suc i))
          = {k. k < length (owners imap) \<and> owners imap ! k = unique_owners imap ! i}"
    if "i < length (unique_owners imap)" for i
    using owner_slice_set [OF ok', of i] that
    by (simp add: owners_offsets_def owners_size_def unique_owners_def)
  from 1 3 4 5 show ?thesis by blast
qed

text \<open>C1, at the example \<open>imap_three\<close> with the stable routine.\<close>

theorem owners_idx_groups_by_owner_witness:
  "argsort_ok (argsort_stable (owners imap_three)) (owners imap_three) \<and>
   owners_idx argsort_stable imap_three = [0, 2, 1] \<and>
   owners_offsets imap_three = [0, 2, 3] \<and>
   map (\<lambda>k. owners imap_three ! k) (owners_idx argsort_stable imap_three) = [1, 1, 2] \<and>
   set (py_slice (owners_idx argsort_stable imap_three) (owners_offsets imap_three ! 0)
          (owners_offsets imap_three ! Suc 0))
     = {k. k < length (owners imap_three) \<and> owners imap_three ! k = unique_owners imap_three ! 0}"
proof -
  have p: "owners_idx argsort_stable imap_three = [0, 2, 1]" by code_simp
  have o: "owners_offsets imap_three = [0, 2, 3]" by code_simp
  have u: "0 < length (unique_owners imap_three)" by code_simp
  have m: "map (\<lambda>k. owners imap_three ! k) [0, 2, 1] = [1, 1, 2]" by (simp add: imap_three_def)
  have ok: "argsort_ok (argsort_stable (owners imap_three)) (owners imap_three)"
    using p by (simp add: owners_idx_def argsort_ok_def imap_three_def upt_rec)
  from owners_idx_groups_by_owner [where argsort = argsort_stable and imap = imap_three, OF ok] u
  have "set (py_slice (owners_idx argsort_stable imap_three) (owners_offsets imap_three ! 0)
          (owners_offsets imap_three ! Suc 0))
     = {k. k < length (owners imap_three) \<and> owners imap_three ! k = unique_owners imap_three ! 0}"
    by blast
  with ok p o m show ?thesis by simp
qed

text \<open>For the owners 3, 2, 1, 1 only two permutations sort: the stable one and one other.\<close>

lemma argsort_ties_two_results:
  assumes "argsort_ok p (owners imap_ties)"
  shows "p = [2, 3, 1, 0] \<or> p = [3, 2, 1, 0]"
proof -
  let ?a = "[3, 2, 1, 1 :: int]"
  from assms have m: "mset p = mset [0..<length ?a]" and s: "sorted (map (\<lambda>k. ?a ! k) p)"
    by (simp_all add: argsort_ok_def imap_ties_def)
  have "mset (map (\<lambda>k. ?a ! k) p) = mset ?a" using m by (rule mset_map_perm)
  then have "sort ?a = map (\<lambda>k. ?a ! k) p" using s by (rule properties_for_sort)
  then have keys: "map (\<lambda>k. ?a ! k) p = [1, 1, 2, 3]" by simp
  from arg_cong [OF keys, of length] have "length p = 4" by simp
  then obtain x y z w where p: "p = [x, y, z, w]"
    by (auto simp: length_Suc_conv numeral_eq_Suc)
  have bound: "k < 4" if "k \<in> set p" for k
    using perm_bound [OF m that] by simp
  have d: "distinct p" using m by (metis distinct_upt mset_eq_imp_distinct_iff)
  have cases: "k = 0 \<or> k = 1 \<or> k = 2 \<or> k = 3" if "k < 4" for k :: nat
    using that by linarith
  from bound p have bx: "x < 4" and by': "y < 4" and bz: "z < 4" and bw: "w < 4" by simp_all
  from keys p have kx: "?a ! x = 1" and ky: "?a ! y = 1" and kz: "?a ! z = 2" and kw: "?a ! w = 3"
    by simp_all
  from cases [OF bz] kz have z: "z = 1" by auto
  from cases [OF bw] kw have w: "w = 0" by auto
  from cases [OF bx] kx have x: "x = 2 \<or> x = 3" by auto
  from cases [OF by'] ky have y: "y = 2 \<or> y = 3" by auto
  from d p have "x \<noteq> y" by simp
  with x y z w p show ?thesis by auto
qed

text \<open>
  C1, counterexample. For the owners 3, 2, 1, 1 the permutation 3, 2, 1, 0 sorts, and it
  has the two ghost slots of owner 1 in the reverse of their original order: it is what
  \<^verbatim>\<open>np.argsort\<close> returns there whenever it is not stable. The routine that reverses ties
  returns it.
\<close>

theorem owners_idx_not_stable:
  "argsort_ok (owners_idx argsort_rev_ties imap_ties) (owners imap_ties) \<and>
   owners_idx argsort_rev_ties imap_ties = [3, 2, 1, 0] \<and>
   \<not> stable_perm (owners_idx argsort_rev_ties imap_ties) (owners imap_ties)"
proof -
  have p: "owners_idx argsort_rev_ties imap_ties = [3, 2, 1, 0]" by code_simp
  have a: "owners imap_ties = [3, 2, 1, 1]" by (simp add: imap_ties_def)
  have ok: "argsort_ok (owners_idx argsort_rev_ties imap_ties) (owners imap_ties)"
    by (simp add: owners_idx_def argsort_rev_ties_sorts)
  have "\<not> stable_perm [3, 2, 1, 0] [3, 2, 1, 1]"
  proof
    assume s: "stable_perm [3, 2, 1, 0] [3, 2, 1, 1]"
    have "[3, 2, 1, 0 :: nat] ! 0 < [3, 2, 1, 0] ! 1"
      by (rule s [unfolded stable_perm_def, rule_format, of 0 1]) simp_all
    then show False by simp
  qed
  with ok p show ?thesis by (simp add: a)
qed

subsection \<open>The send-index buffers\<close>

lemma fancy_index_ok:
  "\<forall>i \<in> set is. i < length a \<Longrightarrow> fancy_index a is = Inr (map (\<lambda>i. a ! i) is)"
  by (induction "is") simp_all

lemma send_buff_loop_ok:
  assumes "\<forall>i \<in> set is. i < length sb \<and> (\<forall>k \<in> set (py_slice oidx (offs ! i) (offs ! Suc i)). k < length g)"
  shows "send_buff_loop g oidx offs is sb =
     Inr (map (\<lambda>i. if i \<in> set is then send_buff_entry g oidx offs i else sb ! i) [0..<length sb])"
  using assms
proof (induction "is" arbitrary: sb)
  case Nil
  then show ?case by (simp add: map_nth)
next
  case (Cons i "is")
  from Cons.prems have fi: "fancy_index g (py_slice oidx (offs ! i) (offs ! Suc i))
      = Inr (send_buff_entry g oidx offs i)"
    by (simp add: fancy_index_ok send_buff_entry_def)
  have pre: "\<forall>j \<in> set is. j < length (sb[i := send_buff_entry g oidx offs i]) \<and>
      (\<forall>k \<in> set (py_slice oidx (offs ! j) (offs ! Suc j)). k < length g)"
    using Cons.prems by simp
  have "send_buff_loop g oidx offs (i # is) sb
        = send_buff_loop g oidx offs is (sb[i := send_buff_entry g oidx offs i])"
    by (simp add: fi Let_def)
  also have "\<dots> = Inr (map (\<lambda>j. if j \<in> set is then send_buff_entry g oidx offs j
                                 else sb[i := send_buff_entry g oidx offs i] ! j) [0..<length sb])"
    using Cons.IH [OF pre] by simp
  also have "map (\<lambda>j. if j \<in> set is then send_buff_entry g oidx offs j
                                 else sb[i := send_buff_entry g oidx offs i] ! j) [0..<length sb]
      = map (\<lambda>j. if j \<in> set (i # is) then send_buff_entry g oidx offs j else sb ! j) [0..<length sb]"
    by (rule map_cong) (auto simp: nth_list_update)
  finally show ?case .
qed

lemma concat_slices_take:
  "k \<le> length sizes \<Longrightarrow>
   concat (map (\<lambda>i. py_slice p (offsets_of sizes ! i) (offsets_of sizes ! Suc i)) [0..<k])
     = take (sum_list (take k sizes)) p"
proof (induction k)
  case 0
  then show ?case by simp
next
  case (Suc k)
  then have k: "k < length sizes" by simp
  have "py_slice p (offsets_of sizes ! k) (offsets_of sizes ! Suc k)
        = take (sizes ! k) (drop (sum_list (take k sizes)) p)"
    using k by (simp add: py_slice_def offsets_of_nth take_Suc_conv_app_nth)
  with Suc k show ?case
    by (simp add: take_Suc_conv_app_nth take_add)
qed

lemma concat_slices:
  "sum_list sizes = length p \<Longrightarrow>
   concat (map (\<lambda>i. py_slice p (offsets_of sizes ! i) (offsets_of sizes ! Suc i)) [0..<length sizes]) = p"
  by (simp add: concat_slices_take)

lemma send_buff_idx_ok:
  assumes wf: "wf_imap imap" and ok: "argsort_ok (argsort (owners imap)) (owners imap)"
  shows "send_buff_idx argsort imap =
     Inr (map (send_buff_entry (ghosts imap) (owners_idx argsort imap) (owners_offsets imap))
            [0..<length (unique_owners imap)])"
proof -
  let ?p = "owners_idx argsort imap" and ?g = "ghosts imap"
  from ok have perm: "mset ?p = mset [0..<length (owners imap)]"
    by (simp add: argsort_ok_def owners_idx_def)
  have bound: "k < length ?g" if "k \<in> set ?p" for k
    using perm_bound [OF perm that] wf by (simp add: wf_imap_def)
  let ?sb = "map (\<lambda>size. replicate size (0 :: int64)) (owners_size imap)"
  have len: "length ?sb = length (unique_owners imap)"
    by (simp add: owners_size_def unique_owners_def length_np_unique_counts)
  have pre: "\<forall>i \<in> set [0..<length (unique_owners imap)]. i < length ?sb \<and>
      (\<forall>k \<in> set (py_slice ?p (owners_offsets imap ! i) (owners_offsets imap ! Suc i)). k < length ?g)"
    using bound set_py_slice [of ?p] len by auto
  have len': "length (owners_size imap) = length (unique_owners imap)"
    using len by simp
  show ?thesis
    unfolding send_buff_idx_def
    by (subst send_buff_loop_ok [OF pre]) (simp add: len' cong: map_cong)
qed

text \<open>
  C9. The per-owner buffers regroup the ghost list: there is one buffer per owner, buffer
  \<open>i\<close> has \<open>owners_size[i]\<close> entries, each of them the global index of a ghost that
  \<open>unique_owners[i]\<close> owns, and all buffers together are a permutation of \<^verbatim>\<open>imap.ghosts\<close>.
\<close>

theorem send_buff_idx_regroups:
  assumes wf: "wf_imap imap" and ok: "argsort_ok (argsort (owners imap)) (owners imap)"
  shows "\<exists>sb. send_buff_idx argsort imap = Inr sb \<and>
     length sb = length (unique_owners imap) \<and>
     (\<forall>i < length sb.
        length (sb ! i) = owners_size imap ! i \<and>
        (\<forall>j < length (sb ! i). \<exists>k < num_ghosts imap.
            sb ! i ! j = ghosts imap ! k \<and> owners imap ! k = unique_owners imap ! i)) \<and>
     mset (concat sb) = mset (ghosts imap)"
proof -
  let ?a = "owners imap" and ?g = "ghosts imap" and ?p = "owners_idx argsort imap"
  let ?offs = "owners_offsets imap" and ?m = "length (unique_owners imap)"
  let ?sl = "\<lambda>i. py_slice ?p (?offs ! i) (?offs ! Suc i)"
  let ?sb = "map (send_buff_entry ?g ?p ?offs) [0..<?m]"
  from wf have lg: "length ?a = length ?g" by (simp add: wf_imap_def)
  from ok have ok': "argsort_ok ?p ?a" by (simp add: owners_idx_def)
  then have perm: "mset ?p = mset [0..<length ?a]" by (simp add: argsort_ok_def)
  have sl: "map (\<lambda>k. ?a ! k) (?sl i) = replicate (owners_size imap ! i) (unique_owners imap ! i)"
    if "i < ?m" for i
    using owner_slice [OF ok', of i] that
    by (simp add: owners_offsets_def owners_size_def unique_owners_def)
  have 1: "send_buff_idx argsort imap = Inr ?sb" using wf ok by (rule send_buff_idx_ok)
  have 2: "length ?sb = ?m" by simp
  have 3: "length (?sb ! i) = owners_size imap ! i \<and>
        (\<forall>j < length (?sb ! i). \<exists>k < num_ghosts imap.
            ?sb ! i ! j = ?g ! k \<and> ?a ! k = unique_owners imap ! i)" if "i < length ?sb" for i
  proof -
    from that have i: "i < ?m" by simp
    have e: "?sb ! i = map (\<lambda>k. ?g ! k) (?sl i)" using i by (simp add: send_buff_entry_def)
    have l: "length (?sl i) = owners_size imap ! i"
      using arg_cong [OF sl [OF i], of length] by simp
    have "\<exists>k < num_ghosts imap. ?sb ! i ! j = ?g ! k \<and> ?a ! k = unique_owners imap ! i"
      if j: "j < length (?sb ! i)" for j
    proof -
      from j e have j': "j < length (?sl i)" by simp
      then have "?sl i ! j \<in> set ?p" using set_py_slice [of ?p] nth_mem by blast
      then have "?sl i ! j < num_ghosts imap"
        using perm_bound [OF perm] lg by (simp add: num_ghosts_def)
      moreover have "?sb ! i ! j = ?g ! (?sl i ! j)" using e j' by simp
      moreover have "?a ! (?sl i ! j) = unique_owners imap ! i"
      proof -
        have "map (\<lambda>k. ?a ! k) (?sl i) ! j = replicate (owners_size imap ! i) (unique_owners imap ! i) ! j"
          by (simp only: sl [OF i])
        with j' l show ?thesis by simp
      qed
      ultimately show ?thesis by blast
    qed
    with e l show ?thesis by simp
  qed
  have 4: "mset (concat ?sb) = mset ?g"
  proof -
    have sum: "sum_list (owners_size imap) = length ?p"
      using perm by (metis owners_size_def sum_np_unique_counts size_mset length_upt diff_zero)
    have "concat ?sb = map (\<lambda>k. ?g ! k) (concat (map ?sl [0..<?m]))"
      by (simp add: map_concat send_buff_entry_def [abs_def] comp_def)
    also have "concat (map ?sl [0..<?m]) = ?p"
      using concat_slices [OF sum]
      by (simp add: owners_offsets_def owners_size_def unique_owners_def length_np_unique_counts)
    finally have "concat ?sb = map (\<lambda>k. ?g ! k) ?p" .
    moreover have "mset (map (\<lambda>k. ?g ! k) ?p) = mset ?g"
      by (rule mset_map_perm) (simp add: perm lg [symmetric])
    ultimately show ?thesis by simp
  qed
  from 1 2 3 4 show ?thesis by blast
qed

text \<open>C9, at the example \<open>imap_three\<close> with the routine that reverses ties.\<close>

theorem send_buff_idx_regroups_witness:
  "wf_imap imap_three \<and>
   argsort_ok (argsort_rev_ties (owners imap_three)) (owners imap_three) \<and>
   send_buff_idx argsort_rev_ties imap_three = Inr [[4, 3], [7]] \<and>
   (\<exists>sb. send_buff_idx argsort_rev_ties imap_three = Inr sb \<and>
      length sb = length (unique_owners imap_three) \<and>
      mset (concat sb) = mset (ghosts imap_three))"
proof -
  have wf: "wf_imap imap_three" by (simp add: wf_imap_def imap_three_def)
  have p: "argsort_rev_ties (owners imap_three) = [2, 0, 1]" by code_simp
  have ok: "argsort_ok (argsort_rev_ties (owners imap_three)) (owners imap_three)"
    unfolding p by (simp add: argsort_ok_def imap_three_def upt_rec)
  have sb: "send_buff_idx argsort_rev_ties imap_three = Inr [[4, 3], [7]]" by code_simp
  from send_buff_idx_regroups [where argsort = argsort_rev_ties and imap = imap_three, OF wf ok]
  have "\<exists>sb. send_buff_idx argsort_rev_ties imap_three = Inr sb \<and>
      length sb = length (unique_owners imap_three) \<and>
      mset (concat sb) = mset (ghosts imap_three)"
    by blast
  with wf ok sb show ?thesis by simp
qed

subsection \<open>Local indices of the received global indices\<close>

lemma sint_sub_in_range:
  fixes g lo hi :: int64
  assumes lo: "0 \<le> sint lo"
  shows "(0 \<le> sint (g - lo) \<and> sint (g - lo) < sint hi - sint lo) \<longleftrightarrow>
         (sint lo \<le> sint g \<and> sint g < sint hi)"
proof
  assume L: "0 \<le> sint (g - lo) \<and> sint (g - lo) < sint hi - sint lo"
  have hi: "sint hi < 2 ^ 63" using sint_lt [of hi] by simp
  have "sint g = sint ((g - lo) + lo)" by simp
  also have "\<dots> = signed_take_bit 63 (sint (g - lo) + sint lo)"
    by (simp only: sint_word_add) simp
  also have "\<dots> = sint (g - lo) + sint lo"
    by (rule signed_take_bit_int_eq_self) (use L lo hi in linarith)+
  finally show "sint lo \<le> sint g \<and> sint g < sint hi" using L by linarith
next
  assume R: "sint lo \<le> sint g \<and> sint g < sint hi"
  have hi: "sint hi < 2 ^ 63" using sint_lt [of hi] by simp
  have "sint (g - lo) = signed_take_bit 63 (sint g - sint lo)"
    by (simp only: sint_word_diff) simp
  also have "\<dots> = sint g - sint lo"
    by (rule signed_take_bit_int_eq_self) (use R lo hi in linarith)+
  finally show "0 \<le> sint (g - lo) \<and> sint (g - lo) < sint hi - sint lo" using R by linarith
qed

text \<open>
  C10. The received global indices become local ones by the 64-bit subtraction of
  \<open>local_range[0]\<close>, entry by entry and with no check. For a local range \<open>[lo, hi)\<close> with
  \<open>0 \<le> lo\<close> and \<open>hi - lo = nlocal\<close>, every entry of \<open>ghosts_idx\<close> lies in \<open>[0, nlocal)\<close> exactly
  when every received index lies in the local range.
\<close>

theorem ghosts_idx_local:
  assumes "local_range imap = (lo, hi)" and "0 \<le> sint lo"
    and "sint hi = sint lo + int (size_local imap)"
  shows "length (ghosts_idx imap recv_buff_idx) = length recv_buff_idx \<and>
         (\<forall>k < length recv_buff_idx. ghosts_idx imap recv_buff_idx ! k = recv_buff_idx ! k - lo) \<and>
         ((\<forall>k < length recv_buff_idx.
              0 \<le> sint (ghosts_idx imap recv_buff_idx ! k) \<and>
              sint (ghosts_idx imap recv_buff_idx ! k) < int (size_local imap)) \<longleftrightarrow>
          (\<forall>k < length recv_buff_idx.
              sint lo \<le> sint (recv_buff_idx ! k) \<and> sint (recv_buff_idx ! k) < sint hi))"
proof -
  have nth: "ghosts_idx imap recv_buff_idx ! k = recv_buff_idx ! k - lo" if "k < length recv_buff_idx" for k
    using that assms(1) by (simp add: ghosts_idx_def)
  have size: "int (size_local imap) = sint hi - sint lo" using assms(3) by simp
  show ?thesis
    using sint_sub_in_range [OF assms(2), of _ hi]
    by (simp add: nth size) (simp add: ghosts_idx_def)
qed

text \<open>C10, at the local range [10, 13): the received index 9 is outside it and becomes -1.\<close>

theorem ghosts_idx_local_witness:
  "local_range imap_three = (10, 13) \<and> 0 \<le> sint (10 :: int64) \<and>
   sint (13 :: int64) = sint (10 :: int64) + int (size_local imap_three) \<and>
   length (ghosts_idx imap_three [10, 12, 9]) = 3 \<and>
   ghosts_idx imap_three [10, 12, 9] ! 1 = 12 - 10 \<and>
   sint (ghosts_idx imap_three [10, 12, 9] ! 2) = - 1"
proof -
  have 1: "local_range imap_three = (10, 13)" by (simp add: imap_three_def)
  have 2: "0 \<le> sint (10 :: int64)" by simp
  have 3: "sint (13 :: int64) = sint (10 :: int64) + int (size_local imap_three)"
    by (simp add: imap_three_def)
  have 4: "sint (ghosts_idx imap_three [10, 12, 9] ! 2) = - 1"
    by (simp add: ghosts_idx_def imap_three_def)
  from ghosts_idx_local [OF 1 2 3, of "[10, 12, 9]"] 1 2 3 4 show ?thesis by simp
qed

subsection \<open>The kernel\<close>

text \<open>
  C4. The kernel is guarded, whatever the launch configuration: a work-item whose global
  index is not below \<open>end - begin\<close> writes nothing, and one whose index is below it writes
  \<open>in_[idx + begin]\<close> to \<open>out_[idx]\<close> and nothing else.
\<close>

theorem copy_range_guarded:
  "(\<not> sint (global_idx thread_id block_id blockDim) < sint (end - begin) \<longrightarrow>
      copy_range in_arr out_arr begin end thread_id block_id blockDim = Some out_arr) \<and>
   (sint (global_idx thread_id block_id blockDim) < sint (end - begin) \<longrightarrow>
      (\<forall>src dst.
         wrap_index (length in_arr) (sint (global_idx thread_id block_id blockDim + begin)) = Some src \<and>
         wrap_index (length out_arr) (sint (global_idx thread_id block_id blockDim)) = Some dst \<longrightarrow>
         copy_range in_arr out_arr begin end thread_id block_id blockDim
           = Some (out_arr[dst := in_arr ! src]))) \<and>
   (sint (global_idx thread_id block_id blockDim) < sint (end - begin) \<and>
    0 \<le> sint (global_idx thread_id block_id blockDim) \<and>
    sint (global_idx thread_id block_id blockDim) < int (length out_arr) \<and>
    0 \<le> sint (global_idx thread_id block_id blockDim + begin) \<and>
    sint (global_idx thread_id block_id blockDim + begin) < int (length in_arr) \<longrightarrow>
      (\<exists>out'. copy_range in_arr out_arr begin end thread_id block_id blockDim = Some out' \<and>
         length out' = length out_arr \<and>
         out' ! nat (sint (global_idx thread_id block_id blockDim))
           = in_arr ! nat (sint (global_idx thread_id block_id blockDim + begin)) \<and>
         (\<forall>k < length out_arr. k \<noteq> nat (sint (global_idx thread_id block_id blockDim)) \<longrightarrow>
            out' ! k = out_arr ! k)))"
proof (intro conjI impI)
  assume "\<not> sint (global_idx thread_id block_id blockDim) < sint (end - begin)"
  then show "copy_range in_arr out_arr begin end thread_id block_id blockDim = Some out_arr"
    by (simp add: copy_range_def Let_def)
next
  assume "sint (global_idx thread_id block_id blockDim) < sint (end - begin)"
  then show "\<forall>src dst.
         wrap_index (length in_arr) (sint (global_idx thread_id block_id blockDim + begin)) = Some src \<and>
         wrap_index (length out_arr) (sint (global_idx thread_id block_id blockDim)) = Some dst \<longrightarrow>
         copy_range in_arr out_arr begin end thread_id block_id blockDim
           = Some (out_arr[dst := in_arr ! src])"
    by (simp add: copy_range_def Let_def)
next
  let ?idx = "global_idx thread_id block_id blockDim"
  assume a: "sint ?idx < sint (end - begin) \<and> 0 \<le> sint ?idx \<and> sint ?idx < int (length out_arr) \<and>
    0 \<le> sint (?idx + begin) \<and> sint (?idx + begin) < int (length in_arr)"
  then have src: "wrap_index (length in_arr) (sint (?idx + begin)) = Some (nat (sint (?idx + begin)))"
    and dst: "wrap_index (length out_arr) (sint ?idx) = Some (nat (sint ?idx))"
    by (simp_all add: wrap_index_def)
  from a have "copy_range in_arr out_arr begin end thread_id block_id blockDim
      = Some (out_arr[nat (sint ?idx) := in_arr ! nat (sint (?idx + begin))])"
    by (simp add: copy_range_def Let_def src dst)
  moreover from a have "nat (sint ?idx) < length out_arr" by linarith
  ultimately show "\<exists>out'. copy_range in_arr out_arr begin end thread_id block_id blockDim = Some out' \<and>
         length out' = length out_arr \<and>
         out' ! nat (sint ?idx) = in_arr ! nat (sint (?idx + begin)) \<and>
         (\<forall>k < length out_arr. k \<noteq> nat (sint ?idx) \<longrightarrow> out' ! k = out_arr ! k)"
    by simp
qed

text \<open>C4, at two work-items of one block, on either side of the guard.\<close>

theorem copy_range_guarded_witness:
  "copy_range [5, 6, 7, 8 :: int] [0, 0] 1 3 1 0 32 = Some [0, 7] \<and>
   copy_range [5, 6, 7, 8 :: int] [0, 0] 1 3 2 0 32 = Some [0, 0]"
proof -
  have a: "sint (global_idx 1 0 32) < sint (3 - 1 :: int64)" by (simp add: global_idx_def)
  have b: "\<not> sint (global_idx 2 0 32) < sint (3 - 1 :: int64)" by (simp add: global_idx_def)
  have s: "wrap_index (length [5, 6, 7, 8 :: int]) (sint (global_idx 1 0 32 + 1)) = Some 2"
    by (simp add: global_idx_def wrap_index_def)
  have d: "wrap_index (length [0, 0 :: int]) (sint (global_idx 1 0 32)) = Some 1"
    by (simp add: global_idx_def wrap_index_def)
  from copy_range_guarded [of 1 0 32 3 1 "[5, 6, 7, 8 :: int]" "[0, 0]"] a s d
  have "copy_range [5, 6, 7, 8 :: int] [0, 0] 1 3 1 0 32 = Some ([0, 0][1 := [5, 6, 7, 8] ! 2])"
    by blast
  moreover from copy_range_guarded [of 2 0 32 3 1 "[5, 6, 7, 8 :: int]" "[0, 0]"] b
  have "copy_range [5, 6, 7, 8 :: int] [0, 0] 1 3 2 0 32 = Some [0, 0]"
    by blast
  ultimately show ?thesis by simp
qed

subsection \<open>The order of the MPI calls\<close>

lemma trace_send_loop: "trace (send_loop is st) = trace st @ map Print is"
  by (induction "is" arbitrary: st) simp_all

lemma all_requests_send_loop: "all_requests (send_loop is st) = all_requests st"
  by (induction "is" arbitrary: st) simp_all

lemma trace_recv_loop:
  "trace (recv_loop ug offs is st) = trace st @ map (\<lambda>i. Irecv (recv_request_of ug offs i)) is"
  by (induction "is" arbitrary: st) (simp_all add: recv_request_of_def Let_def)

lemma all_requests_recv_loop:
  "all_requests (recv_loop ug offs is st) = all_requests st @ map (recv_request_of ug offs) is"
  by (induction "is" arbitrary: st) (simp_all add: recv_request_of_def Let_def)

lemma fst_exchange:
  "fst (exchange net uo gs) =
     map Print [0..<length uo] @
     map Irecv (map (recv_request_of (unique_ghosts gs) (ghosts_offsets gs)) [0..<length (unique_ghosts gs)]) @
     [Waitall (map (recv_request_of (unique_ghosts gs) (ghosts_offsets gs)) [0..<length (unique_ghosts gs)])]"
  by (simp add: exchange_def Let_def trace_recv_loop trace_send_loop all_requests_recv_loop
      all_requests_send_loop comp_def)

lemma post_before_wait:
  assumes "filter is_wait pre = []"
    and "i < length (pre @ [Waitall r])" and "j < length (pre @ [Waitall r])"
    and "is_post ((pre @ [Waitall r]) ! i)" and "is_wait ((pre @ [Waitall r]) ! j)"
  shows "i < j"
proof -
  have "\<not> j < length pre"
  proof
    assume j: "j < length pre"
    then have "pre ! j \<in> set pre" by simp
    moreover have "is_wait (pre ! j)" using assms(5) j by (simp add: nth_append)
    ultimately show False using assms(1) by (auto simp: filter_empty_conv)
  qed
  moreover have "i \<noteq> length pre" using assms(4) by (auto simp: nth_append is_post_def)
  ultimately show ?thesis using assms(2) by simp
qed

text \<open>
  C5. In the exchange every request is posted before anything is awaited: the events
  are the posts followed by one \<open>Waitall\<close>, on exactly the requests posted, so every
  post comes before the wait.
\<close>

theorem fire_all_then_wait_all:
  "\<exists>pre reqs. fst (exchange net uo gs) = pre @ [Waitall reqs] \<and>
      filter is_wait pre = [] \<and> filter is_post pre = map Irecv reqs \<and>
      (\<forall>i < length (pre @ [Waitall reqs]). \<forall>j < length (pre @ [Waitall reqs]).
          is_post ((pre @ [Waitall reqs]) ! i) \<and> is_wait ((pre @ [Waitall reqs]) ! j) \<longrightarrow> i < j)"
proof -
  let ?reqs = "map (recv_request_of (unique_ghosts gs) (ghosts_offsets gs)) [0..<length (unique_ghosts gs)]"
  let ?pre = "map Print [0..<length uo] @ map Irecv ?reqs"
  have 1: "fst (exchange net uo gs) = ?pre @ [Waitall ?reqs]" by (simp add: fst_exchange)
  have 2: "filter is_wait ?pre = []" by (simp add: is_wait_def filter_empty_conv)
  have 3: "filter is_post ?pre = map Irecv ?reqs"
    by (simp add: is_post_def filter_empty_conv filter_map comp_def)
  have 4: "i < j" if "i < length (?pre @ [Waitall ?reqs])" "j < length (?pre @ [Waitall ?reqs])"
      "is_post ((?pre @ [Waitall ?reqs]) ! i)" "is_wait ((?pre @ [Waitall ?reqs]) ! j)" for i j
    using post_before_wait [OF 2 that] .
  from 1 2 3 4 show ?thesis by blast
qed

text \<open>C5, at a rank with two owners and two destination ranks.\<close>

theorem fire_all_then_wait_all_witness:
  "fst (exchange (\<lambda>r. None) [1, 2] [1, 1, 2]) =
     [Print 0, Print 1, Irecv (Recv_request 1 0 2), Irecv (Recv_request 2 2 3),
      Waitall [Recv_request 1 0 2, Recv_request 2 2 3]] \<and>
   (\<exists>pre reqs. fst (exchange (\<lambda>r. None) [1, 2] [1, 1, 2]) = pre @ [Waitall reqs] \<and>
      filter is_wait pre = [] \<and> filter is_post pre = map Irecv reqs)"
proof -
  have "fst (exchange (\<lambda>r. None) [1, 2] [1, 1, 2]) =
     [Print 0, Print 1, Irecv (Recv_request 1 0 2), Irecv (Recv_request 2 2 3),
      Waitall [Recv_request 1 0 2, Recv_request 2 2 3]]"
    by code_simp
  moreover from fire_all_then_wait_all [of "\<lambda>r. None" "[1, 2]" "[1, 1, 2]"]
  have "\<exists>pre reqs. fst (exchange (\<lambda>r. None) [1, 2] [1, 1, 2]) = pre @ [Waitall reqs] \<and>
      filter is_wait pre = [] \<and> filter is_post pre = map Irecv reqs"
    by blast
  ultimately show ?thesis by simp
qed

subsection \<open>A rank without neighbours\<close>

text \<open>
  C7. A rank with no ghosts and no destination ranks posts no send and no receive; its
  \<open>Waitall\<close> has no request to wait for and returns, whatever the network does, and the
  receive buffer is the empty buffer that was allocated.
\<close>

theorem no_neighbours_no_messages:
  assumes wf: "wf_imap imap" and ng: "num_ghosts imap = 0"
    and nd: "concat (index_to_dest_ranks imap) = []"
  shows "ghosts_list imap = Inr [] \<and>
         exchange net (unique_owners imap) [] = ([Waitall []], Returned []) \<and>
         plan_build argsort net imap =
           Returned \<lparr>owners_data_d = (argsort [], [], [0], []), ghosts_data_d = ([], [], [0], [])\<rparr>"
proof -
  from wf ng have ow: "owners imap = []" by (simp add: wf_imap_def num_ghosts_def)
  have sr: "shared_ranks imap = []" unfolding shared_ranks_def nd by (simp add: np_unique_def)
  have gl: "ghosts_list imap = Inr []" by (simp add: ghosts_list_def sr)
  have uo: "unique_owners imap = []" using ow by (simp add: unique_owners_def np_unique_def)
  have os: "owners_size imap = []"
    using ow by (simp add: owners_size_def np_unique_counts_def np_unique_def)
  have ex: "exchange net [] [] = ([Waitall []], Returned [])"
    by (simp add: exchange_def waitall_def unique_ghosts_def ghosts_size_def np_unique_counts_def
        np_unique_def)
  have sb: "send_buff_idx argsort imap = Inr []" by (simp add: send_buff_idx_def uo os)
  show ?thesis
    using ow
    by (simp add: gl uo ex plan_build_def sb os owners_idx_def owners_offsets_def offsets_of_def
        np_cumsum_def ghosts_idx_def ghosts_size_def ghosts_offsets_def unique_ghosts_def
        np_unique_counts_def np_unique_def)
qed

text \<open>C7, at the example \<open>imap_alone\<close>.\<close>

theorem no_neighbours_no_messages_witness:
  "wf_imap imap_alone \<and> num_ghosts imap_alone = 0 \<and>
   concat (index_to_dest_ranks imap_alone) = [] \<and>
   exchange (\<lambda>r. None) (unique_owners imap_alone) [] = ([Waitall []], Returned []) \<and>
   plan_build argsort_stable (\<lambda>r. None) imap_alone =
     Returned \<lparr>owners_data_d = ([], [], [0], []), ghosts_data_d = ([], [], [0], [])\<rparr>"
proof -
  have 1: "wf_imap imap_alone" by (simp add: wf_imap_def imap_alone_def)
  have 2: "num_ghosts imap_alone = 0" by (simp add: num_ghosts_def imap_alone_def)
  have 3: "concat (index_to_dest_ranks imap_alone) = []" by (simp add: imap_alone_def)
  have 4: "argsort_stable [] = []" by (simp add: argsort_stable_def)
  from no_neighbours_no_messages [OF 1 2 3, of "\<lambda>r. None" argsort_stable] 1 2 3 4
  show ?thesis by simp
qed

subsection \<open>Errors of the plan construction\<close>

lemma dof_loop_error: "dof_loop adj r dofs acc = Inl e \<Longrightarrow> e = IndexError"
  by (induction dofs arbitrary: acc) (auto simp: links_def split: if_splits)

lemma rank_loop_error: "rank_loop adj n rs acc = Inl e \<Longrightarrow> e = IndexError"
  by (induction rs arbitrary: acc) (auto split: sum.splits dest: dof_loop_error)

lemma fancy_index_error: "fancy_index a is = Inl e \<Longrightarrow> e = IndexError"
  by (induction "is") (auto split: if_splits sum.splits)

lemma send_buff_loop_error: "send_buff_loop g oidx offs is sb = Inl e \<Longrightarrow> e = IndexError"
  by (induction "is" arbitrary: sb) (auto simp: Let_def split: sum.splits dest: fancy_index_error)

lemma waitall_error: "waitall net reqs buf = Raised e \<Longrightarrow> e = MPI_ERR_IN_STATUS"
  by (simp add: waitall_def split: if_splits)

text \<open>The metadata of the two-rank example is symmetric; with a silent rank 1 it is not.\<close>

lemma asymmetric_examples:
  "\<not> asymmetric [imap_rank0, imap_rank1] 0 \<and> \<not> asymmetric [imap_rank0, imap_rank1] 1 \<and>
   asymmetric [imap_rank0, imap_rank1_silent] 0"
  by (simp add: asymmetric_def reports_ghost_def imap_rank0_def imap_rank1_def imap_rank1_silent_def)

text \<open>
  C3 (as amended). The plan construction makes no symmetry check: it does not fail with
  \<open>InvalidTopology\<close>, whether the ownership metadata is asymmetric or not.
\<close>

theorem plan_build_no_topology_check:
  "plan_build argsort net imap \<noteq> Raised InvalidTopology"
proof
  assume "plan_build argsort net imap = Raised InvalidTopology"
  then consider "ghosts_list imap = Inl InvalidTopology"
    | "send_buff_idx argsort imap = Inl InvalidTopology"
    | gs where "snd (exchange net (unique_owners imap) gs) = Raised InvalidTopology"
    by (auto simp: plan_build_def split: sum.splits outcome.splits)
  then show False
  proof cases
    case 1
    then show ?thesis by (auto simp: ghosts_list_def dest: rank_loop_error)
  next
    case 2
    then show ?thesis by (auto simp: send_buff_idx_def dest: send_buff_loop_error)
  next
    case 3
    then show ?thesis by (auto simp: exchange_def Let_def dest: waitall_error)
  qed
qed

text \<open>C3, at rank 0 of the two-rank example on a network that delivers nothing: the rank waits for ever.\<close>

theorem plan_build_no_topology_check_witness:
  "plan_build argsort_stable (\<lambda>r. None) imap_rank0 = Blocked \<and>
   plan_build argsort_stable (\<lambda>r. None) imap_rank0 \<noteq> Raised InvalidTopology"
proof -
  have "plan_build argsort_stable (\<lambda>r. None) imap_rank0 = Blocked" by code_simp
  with plan_build_no_topology_check [of argsort_stable "\<lambda>r. None" imap_rank0]
  show ?thesis by simp
qed

text \<open>
  C3, counterexample. On the asymmetric metadata of \<open>world_asym\<close> the plan construction of
  rank 0 returns a plan.
\<close>

theorem plan_build_asymmetric_returns:
  "asymmetric world_asym 0 \<and>
   plan_build argsort_stable (\<lambda>r. None) (world_asym ! 0) =
     Returned \<lparr>owners_data_d = ([0], [1], [0, 1], [1]), ghosts_data_d = ([], [], [0], [])\<rparr>"
proof -
  have "\<not> reports_ghost imap_rank1_silent 3 0"
    by (simp add: reports_ghost_def imap_rank1_silent_def)
  then have "asymmetric world_asym 0"
    by (simp add: asymmetric_def world_asym_def imap_asym0_def)
  moreover have "plan_build argsort_stable (\<lambda>r. None) imap_asym0 =
     Returned \<lparr>owners_data_d = ([0], [1], [0, 1], [1]), ghosts_data_d = ([], [], [0], [])\<rparr>"
    by code_simp
  ultimately show ?thesis by (simp add: world_asym_def)
qed

subsection \<open>What the plan depends on\<close>








subsection \<open>Repeating a scatter\<close>

lemma length_scatter_forward [simp]: "length (scatter_forward w) = length w"
  by (simp add: scatter_forward_def)




lemma length_scatter_reverse [simp]: "length (scatter_reverse reduce w) = length w"
  by (simp add: scatter_reverse_def)

lemma scatter_reverse_nth:
  "r < length w \<Longrightarrow> scatter_reverse reduce w ! r = (w ! r)\<lparr>buffer :=
      map (\<lambda>i. foldl reduce (buffer (w ! r) ! i) (contributions w r i)) [0..<local_size (w ! r)] @
      drop (local_size (w ! r)) (buffer (w ! r))\<rparr>"
  by (simp add: scatter_reverse_def)

lemma scatter_reverse_ghosts:
  "r < length w \<Longrightarrow>
   drop (local_size (w ! r)) (buffer (scatter_reverse reduce w ! r)) = drop (local_size (w ! r)) (buffer (w ! r))"
  by (simp add: scatter_reverse_nth)

lemma scatter_reverse_ghost_slot:
  assumes "valid_world w" "r < length w" "slot < length (ghost_source (w ! r))"
  shows "buffer (scatter_reverse reduce w ! r) ! (local_size (w ! r) + slot)
         = buffer (w ! r) ! (local_size (w ! r) + slot)"
proof -
  have "w ! r \<in> set w" using assms(2) by simp
  with assms(1) have "length (buffer (w ! r)) = local_size (w ! r) + length (ghost_source (w ! r))"
    by (auto simp: valid_world_def)
  with assms(2,3) show ?thesis by (simp add: scatter_reverse_nth nth_append)
qed

lemma contributions_alt:
  "contributions w owner i =
     concat (map (\<lambda>r. map (\<lambda>slot. buffer (w ! r) ! (local_size (w ! r) + slot))
                         (filter (\<lambda>slot. ghost_source (w ! r) ! slot = (owner, i))
                            [0..<length (ghost_source (w ! r))])) [0..<length w])"
proof -
  have "map (\<lambda>st. map (\<lambda>slot. buffer st ! (local_size st + slot))
                         (filter (\<lambda>slot. ghost_source st ! slot = (owner, i))
                            [0..<length (ghost_source st)])) w
      = map (\<lambda>st. map (\<lambda>slot. buffer st ! (local_size st + slot))
                         (filter (\<lambda>slot. ghost_source st ! slot = (owner, i))
                            [0..<length (ghost_source st)])) (map (\<lambda>r. w ! r) [0..<length w])"
    by (simp only: map_nth)
  then show ?thesis by (simp add: contributions_def comp_def)
qed

lemma contributions_scatter_reverse:
  assumes v: "valid_world w"
  shows "contributions (scatter_reverse reduce w) owner i = contributions w owner i"
proof -
  have "map (\<lambda>slot. buffer (scatter_reverse reduce w ! r) ! (local_size (scatter_reverse reduce w ! r) + slot))
          (filter (\<lambda>slot. ghost_source (scatter_reverse reduce w ! r) ! slot = (owner, i))
             [0..<length (ghost_source (scatter_reverse reduce w ! r))])
      = map (\<lambda>slot. buffer (w ! r) ! (local_size (w ! r) + slot))
          (filter (\<lambda>slot. ghost_source (w ! r) ! slot = (owner, i))
             [0..<length (ghost_source (w ! r))])" if r: "r < length w" for r
  proof -
    have g: "ghost_source (scatter_reverse reduce w ! r) = ghost_source (w ! r)"
      and l: "local_size (scatter_reverse reduce w ! r) = local_size (w ! r)"
      using r by (simp_all add: scatter_reverse_nth)
    show ?thesis
      unfolding g l
      by (rule map_cong [OF refl]) (simp add: scatter_reverse_ghost_slot [OF v r])
  qed
  then have step: "\<And>r. r \<in> set [0..<length w] \<Longrightarrow>
        map (\<lambda>slot. buffer (scatter_reverse reduce w ! r) ! (local_size (scatter_reverse reduce w ! r) + slot))
          (filter (\<lambda>slot. ghost_source (scatter_reverse reduce w ! r) ! slot = (owner, i))
             [0..<length (ghost_source (scatter_reverse reduce w ! r))])
      = map (\<lambda>slot. buffer (w ! r) ! (local_size (w ! r) + slot))
          (filter (\<lambda>slot. ghost_source (w ! r) ! slot = (owner, i))
             [0..<length (ghost_source (w ! r))])"
    by simp
  have "map (\<lambda>r. map (\<lambda>slot. buffer (scatter_reverse reduce w ! r) ! (local_size (scatter_reverse reduce w ! r) + slot))
          (filter (\<lambda>slot. ghost_source (scatter_reverse reduce w ! r) ! slot = (owner, i))
             [0..<length (ghost_source (scatter_reverse reduce w ! r))])) [0..<length w]
      = map (\<lambda>r. map (\<lambda>slot. buffer (w ! r) ! (local_size (w ! r) + slot))
          (filter (\<lambda>slot. ghost_source (w ! r) ! slot = (owner, i))
             [0..<length (ghost_source (w ! r))])) [0..<length w]"
    by (rule map_cong [OF refl]) (rule step)
  then show ?thesis
    unfolding contributions_alt length_scatter_reverse by (rule arg_cong)
qed

lemma foldl_reduce_overwrite:
  "foldl reduce_overwrite a cs = (if cs = [] then a else last cs)"
  by (induction cs arbitrary: a) (simp_all add: reduce_overwrite_def)

lemma scatter_reverse_overwrite_idem:
  assumes v: "valid_world w"
  shows "scatter_reverse reduce_overwrite (scatter_reverse reduce_overwrite w)
         = scatter_reverse reduce_overwrite w"
proof (rule nth_equalityI)
  show "length (scatter_reverse reduce_overwrite (scatter_reverse reduce_overwrite w))
        = length (scatter_reverse reduce_overwrite w)" by simp
next
  fix r assume "r < length (scatter_reverse reduce_overwrite (scatter_reverse reduce_overwrite w))"
  then have r: "r < length w" by simp
  let ?w' = "scatter_reverse reduce_overwrite w"
  have l: "local_size (?w' ! r) = local_size (w ! r)" using r by (simp add: scatter_reverse_nth)
  have own: "map (\<lambda>i. foldl reduce_overwrite (buffer (?w' ! r) ! i) (contributions ?w' r i))
               [0..<local_size (w ! r)]
           = map (\<lambda>i. foldl reduce_overwrite (buffer (w ! r) ! i) (contributions w r i))
               [0..<local_size (w ! r)]"
  proof (rule map_cong [OF refl])
    fix i assume "i \<in> set [0..<local_size (w ! r)]"
    then have i: "i < local_size (w ! r)" by simp
    have "buffer (?w' ! r) ! i = foldl reduce_overwrite (buffer (w ! r) ! i) (contributions w r i)"
      using r i by (simp add: scatter_reverse_nth nth_append)
    then show "foldl reduce_overwrite (buffer (?w' ! r) ! i) (contributions ?w' r i)
        = foldl reduce_overwrite (buffer (w ! r) ! i) (contributions w r i)"
      by (simp add: contributions_scatter_reverse [OF v] foldl_reduce_overwrite)
  qed
  have gh: "drop (local_size (w ! r)) (buffer (?w' ! r)) = drop (local_size (w ! r)) (buffer (w ! r))"
    using r by (rule scatter_reverse_ghosts)
  have "scatter_reverse reduce_overwrite ?w' ! r = (?w' ! r)\<lparr>buffer :=
      map (\<lambda>i. foldl reduce_overwrite (buffer (?w' ! r) ! i) (contributions ?w' r i)) [0..<local_size (?w' ! r)] @
      drop (local_size (?w' ! r)) (buffer (?w' ! r))\<rparr>"
    using r by (simp add: scatter_reverse_nth [of r ?w'])
  also have "\<dots> = ?w' ! r"
    unfolding l own gh using r by (simp add: scatter_reverse_nth)
  finally show "scatter_reverse reduce_overwrite ?w' ! r = ?w' ! r" .
qed





text \<open>
  Beside the claim: when the second \<open>scatter_reverse\<close> is made on the owner values that
  the first one produced, the overwrite reduction gives them again
  (\<open>scatter_reverse_overwrite_idem\<close>), and the sum reduction adds the ghost values once
  more.
\<close>

lemma scatter_reverse_sum_in_a_row:
  "scatter_reverse reduce_sum (scatter_reverse reduce_sum world_two) =
     [\<lparr>local_size = 3, ghost_source = [(1, 0)], buffer = [16, 20, 30, 7]\<rparr>,
      \<lparr>local_size = 2, ghost_source = [(0, 0)], buffer = [54, 50, 3]\<rparr>]"
  by code_simp

end
